theory Spec2Isabelle
  imports Main "HOL-Library.Multiset"
begin

section \<open>JSON values and their serialisation\<close>

text \<open>
  The script \<^verbatim>\<open>scripts/generate.ts\<close> reads attachment files with \<^verbatim>\<open>load-json-file\<close>,
  compares records through \<^verbatim>\<open>JSON.stringify\<close> and writes them with
  \<^verbatim>\<open>write-json-file\<close>. A value read from a file is a JSON value. An object is the list
  of its own properties in enumeration order, which is the order \<^verbatim>\<open>JSON.stringify\<close>
  prints. Numbers are integers here (390, 844, 3, 0, 6), printed in plain decimal;
  fractions, and the corner cases of IEEE doubles (the negative zero, the infinities),
  are outside the model. Strings are lists of 8-bit characters.
\<close>

datatype json =
    JNull
  | JBool bool
  | JNum int
  | JStr string
  | JArr "json list"
  | JObj "(string \<times> json) list"

text \<open>Lower-case hexadecimal digit, used by the six-character escapes.\<close>

definition hex_digit :: "nat \<Rightarrow> char" where
  "hex_digit n = (if n < 10 then char_of (48 + n) else char_of (87 + n))"

text \<open>
  \<^verbatim>\<open>JSON.stringify\<close> on one character of a string: the double quote (0x22) and the
  backslash (0x5C) are escaped with a backslash, the control characters below 0x20 have
  a short escape or the six-character one (backslash, \<^verbatim>\<open>u00\<close> and two hexadecimal
  digits), everything else is copied.
\<close>

definition escape_char :: "char \<Rightarrow> string" where
  "escape_char c =
     (if c = CHR 0x22 then [CHR 0x5C, CHR 0x22]
      else if c = CHR 0x5C then [CHR 0x5C, CHR 0x5C]
      else if c = CHR 0x08 then [CHR 0x5C, CHR ''b'']
      else if c = CHR 0x0C then [CHR 0x5C, CHR ''f'']
      else if c = CHR 0x0A then [CHR 0x5C, CHR ''n'']
      else if c = CHR 0x0D then [CHR 0x5C, CHR ''r'']
      else if c = CHR 0x09 then [CHR 0x5C, CHR ''t'']
      else if (of_char c :: nat) < 0x20
        then [CHR 0x5C, CHR ''u'', CHR ''0'', CHR ''0'',
              hex_digit (of_char c div 16), hex_digit (of_char c mod 16)]
      else [c])"

definition quote :: "string \<Rightarrow> string" where
  "quote s = CHR 0x22 # concat (map escape_char s) @ [CHR 0x22]"

definition digit_char :: "nat \<Rightarrow> char" where
  "digit_char n = char_of (48 + n)"

fun digits :: "nat \<Rightarrow> string" where
  "digits n = (if n < 10 then [digit_char n] else digits (n div 10) @ [digit_char (n mod 10)])"

declare digits.simps [simp del]

definition number_to_string :: "int \<Rightarrow> string" where
  "number_to_string i = (if i < 0 then CHR ''-'' # digits (nat (- i)) else digits (nat i))"

text \<open>\<^verbatim>\<open>JSON.stringify(value)\<close> without indentation, as the script calls it.\<close>

fun stringify :: "json \<Rightarrow> string"
  and stringify_elements :: "json list \<Rightarrow> string"
  and stringify_members :: "(string \<times> json) list \<Rightarrow> string" where
  "stringify JNull = ''null''"
| "stringify (JBool b) = (if b then ''true'' else ''false'')"
| "stringify (JNum i) = number_to_string i"
| "stringify (JStr s) = quote s"
| "stringify (JArr xs) = CHR ''['' # stringify_elements xs @ '']''"
| "stringify (JObj kvs) = CHR ''{'' # stringify_members kvs @ ''}''"
| "stringify_elements [] = []"
| "stringify_elements [x] = stringify x"
| "stringify_elements (x # y # ys) = stringify x @ CHR '','' # stringify_elements (y # ys)"
| "stringify_members [] = []"
| "stringify_members [(k, v)] = quote k @ CHR '':'' # stringify v"
| "stringify_members ((k, v) # m # ms) =
     quote k @ CHR '':'' # stringify v @ CHR '','' # stringify_members (m # ms)"

section \<open>The types of the script\<close>

text \<open>
  \<^verbatim>\<open>Dimensions\<close> is the record the script assembles per device. TypeScript types are
  erased when the script runs: each of the five variables of the parsing task is
  \<^verbatim>\<open>undefined\<close> (\<open>None\<close>) until an attachment assigns it, and holds whatever JSON value
  the attachment file had. The fields are in the order of the object literal of the
  script, which is the order \<^verbatim>\<open>JSON.stringify\<close> prints them in.
\<close>

record Dimensions =
  device :: "json option"
  landscape :: "json option"
  portrait :: "json option"
  radius :: "json option"
  scale :: "json option"

text \<open>Of a simulator device the script reads the name only.\<close>

record SimulatorDevice =
  name :: string

text \<open>
  What can be thrown. \<open>SilentError\<close> is the class of \<^verbatim>\<open>utils/silent-error\<close>; the other
  constructors stand for the errors of the libraries and of the language.
\<close>

datatype error =
    SilentError string
  | ExecaError string
  | GlobError string
  | JSONError string
  | TypeError string
  | WriteError string
  | TrashError string
  | DevicesError string

text \<open>The Listr context of the script (\<^verbatim>\<open>interface Context\<close>).\<close>

record Context =
  devices :: "SimulatorDevice list"
  dimensions :: "Dimensions list"
  platform :: string

text \<open>
  The state a task runs in: the Listr context, and the part of the machine the script
  acts on. \<open>derived_data\<close> says whether the directory \<^verbatim>\<open>DERIVED_DATA\<close> exists, \<open>files\<close>
  holds what \<^verbatim>\<open>writeJSON\<close> has written under each path, \<open>console\<close> what
  \<^verbatim>\<open>console.error\<close> has printed and \<open>commands\<close> the processes started through
  \<^verbatim>\<open>execa\<close>, each with its arguments (an argument can be \<^verbatim>\<open>undefined\<close>).
\<close>

record state =
  ctx :: Context
  derived_data :: bool
  files :: "string \<rightharpoonup> json"
  console :: "error list"
  commands :: "(string \<times> string option list) list"

text \<open>
  What the machine answers for one device: the outcome of each awaited call of the
  device's three tasks. \<open>xcodebuild\<close> is \<open>None\<close> when the build resolves, and otherwise
  the error with whether the failed build created the derived-data directory;
  \<open>xcresult\<close> is the result of the first \<^verbatim>\<open>globby\<close>; \<open>xcparse\<close> the outcome of the
  extraction for the bundle it is given; \<open>attachments\<close> the result of the second
  \<^verbatim>\<open>globby\<close>, each file with the outcome of \<^verbatim>\<open>getJSON\<close> on it, in enumeration order;
  \<open>trash\<close> the outcome of the removal.
\<close>

record device_run =
  xcodebuild :: "(error \<times> bool) option"
  xcresult :: "error + string list"
  xcparse :: "string option \<Rightarrow> error option"
  attachments :: "error + (error + json) list"
  trash :: "error option"

text \<open>What the host answers to the script as a whole.\<close>

record env =
  isMacOS :: bool
  withApp :: "string \<Rightarrow> bool"
  withCommand :: "string \<Rightarrow> bool"
  getDevices :: "error + SimulatorDevice list \<times> string"
  simulator :: "SimulatorDevice \<Rightarrow> device_run"
  writeJSON :: "string \<Rightarrow> error option"

definition SCHEME :: string where
  "SCHEME = ''dimensions''"

definition PROJECT :: string where
  "PROJECT = ''./src/dimensions/dimensions.xcodeproj''"

definition DERIVED_DATA :: string where
  "DERIVED_DATA = ''/tmp/com.marcbouchenoire.dimensions''"

definition DIMENSIONS :: string where
  "DIMENSIONS = ''./src/data/dimensions.json''"

definition LOGS :: string where
  "LOGS = ''./src/data/logs.json''"

section \<open>Listr\<close>

text \<open>
  A task takes the state and either throws (\<open>Some e\<close>) or completes (\<open>None\<close>). The
  script builds each \<^verbatim>\<open>Listr\<close> with the default options: the tasks run one after the
  other and the first task that throws stops the list, which rejects with that error. A
  task that returns a \<^verbatim>\<open>Listr\<close> runs it as its body.
\<close>

type_synonym task = "state \<Rightarrow> error option \<times> state"

fun listr :: "task list \<Rightarrow> task" where
  "listr [] s = (None, s)"
| "listr (t # ts) s =
     (case t s of
        (Some e, s') \<Rightarrow> (Some e, s')
      | (None, s') \<Rightarrow> listr ts s')"

section \<open>The tasks\<close>

subsection \<open>Verifying requirements\<close>

definition verifying_requirements :: "env \<Rightarrow> task" where
  "verifying_requirements E s =
     (if \<not> isMacOS E then
        (Some (SilentError ''Xcode is only available on macOS.''), s)
      else if \<not> withApp E ''Xcode'' then
        (Some (SilentError
           (''Xcode is required. (https://developer.apple.com/xcode/)'' @ [CHR 0x22] @ '')}'')), s)
      else if \<not> withCommand E ''xcodebuild'' then
        (Some (SilentError
           ''Xcode Command Line Tools are required. (https://developer.apple.com/xcode/resources/)''), s)
      else if \<not> withCommand E ''xcparse'' then
        (Some (SilentError ''xcparse is required. (https://github.com/ChargePoint/xcparse)''), s)
      else (None, s))"

subsection \<open>Gathering devices\<close>

definition gathering_devices :: "env \<Rightarrow> task" where
  "gathering_devices E s =
     (case getDevices E of
        Inl e \<Rightarrow> (Some e, s)
      | Inr (ds, p) \<Rightarrow> (None, s\<lparr>ctx := (ctx s)\<lparr>devices := ds, platform := p\<rparr>\<rparr>))"

subsection \<open>Extracting dimensions\<close>

text \<open>
  The build is given \<^verbatim>\<open>DERIVED_DATA\<close> as its derived-data path and leaves its result
  bundle there: after a build that resolves the directory exists.
\<close>

definition xcodebuild_arguments :: "SimulatorDevice \<Rightarrow> string option list" where
  "xcodebuild_arguments d =
     map Some [''build'', ''test'', ''-quiet'', ''-scheme'', SCHEME, ''-project'', PROJECT,
       ''-derivedDataPath'', DERIVED_DATA, ''-destination'',
       ''platform=iOS Simulator,name='' @ name d]"

definition extracting_dimensions :: "device_run \<Rightarrow> SimulatorDevice \<Rightarrow> task" where
  "extracting_dimensions R d s =
     (let s1 = s\<lparr>commands := commands s @ [(''xcodebuild'', xcodebuild_arguments d)]\<rparr>
      in case xcodebuild R of
           None \<Rightarrow> (None, s1\<lparr>derived_data := True\<rparr>)
         | Some (e, created) \<Rightarrow> (Some e, s1\<lparr>derived_data := derived_data s \<or> created\<rparr>))"

subsection \<open>Parsing extracted dimensions\<close>

text \<open>
  The destructuring of one attachment. Reading a property of a value that is not an
  object gives \<^verbatim>\<open>undefined\<close>. The rest pattern copies the remaining own enumerable
  properties: of an object all but the four named ones, of an array or a string the
  indexed ones, of a number or a boolean none.
\<close>

fun get_property :: "json \<Rightarrow> string \<Rightarrow> json option" where
  "get_property (JObj kvs) k = map_of kvs k"
| "get_property _ k = None"

definition indexed :: "'a list \<Rightarrow> (string \<times> 'a) list" where
  "indexed xs = zip (map digits [0..<length xs]) xs"

fun rest_properties :: "json \<Rightarrow> (string \<times> json) list" where
  "rest_properties (JObj kvs) =
     filter (\<lambda>(k, v). k \<notin> set [''orientation'', ''device'', ''scale'', ''radius'']) kvs"
| "rest_properties (JArr xs) = indexed xs"
| "rest_properties (JStr s) = indexed (map (\<lambda>c. JStr [c]) s)"
| "rest_properties _ = []"

text \<open>The declarations \<^verbatim>\<open>let device!: Device\<close> to \<^verbatim>\<open>let landscape!: OrientedDimensions\<close>.\<close>

definition undefined_dimensions :: Dimensions where
  "undefined_dimensions =
     \<lparr>device = None, landscape = None, portrait = None, radius = None, scale = None\<rparr>"

text \<open>
  One round of the loop over the attachments. \<^verbatim>\<open>getJSON\<close> may reject, and destructuring
  \<^verbatim>\<open>null\<close> throws a \<^verbatim>\<open>TypeError\<close>. Nothing else is checked.
\<close>

definition is_portrait :: "json \<Rightarrow> bool" where
  "is_portrait a \<longleftrightarrow> get_property a ''orientation'' = Some (JStr ''portrait'')"

fun attachment_step :: "Dimensions \<Rightarrow> error + json \<Rightarrow> error + Dimensions" where
  "attachment_step d (Inl e) = Inl e"
| "attachment_step d (Inr JNull) = Inl (TypeError ''Cannot destructure null'')"
| "attachment_step d (Inr a) =
     (let d1 = d\<lparr>device := get_property a ''device'',
                  scale := get_property a ''scale'',
                  radius := get_property a ''radius''\<rparr>
      in if is_portrait a
         then Inr (d1\<lparr>portrait := Some (JObj (rest_properties a))\<rparr>)
         else Inr (d1\<lparr>landscape := Some (JObj (rest_properties a))\<rparr>))"

fun attachment_loop :: "Dimensions \<Rightarrow> (error + json) list \<Rightarrow> error + Dimensions" where
  "attachment_loop d [] = Inr d"
| "attachment_loop d (a # as) =
     (case attachment_step d a of
        Inl e \<Rightarrow> Inl e
      | Inr d' \<Rightarrow> attachment_loop d' as)"

text \<open>
  \<^verbatim>\<open>JSON.stringify\<close> of a \<^verbatim>\<open>Dimensions\<close> object: a property whose value is
  \<^verbatim>\<open>undefined\<close> is left out.
\<close>

fun property :: "string \<Rightarrow> json option \<Rightarrow> (string \<times> json) list" where
  "property k None = []"
| "property k (Some v) = [(k, v)]"

definition to_json :: "Dimensions \<Rightarrow> json" where
  "to_json d = JObj (property ''device'' (device d) @ property ''landscape'' (landscape d)
     @ property ''portrait'' (portrait d) @ property ''radius'' (radius d)
     @ property ''scale'' (scale d))"

definition JSON_stringify :: "Dimensions \<Rightarrow> string" where
  "JSON_stringify d = stringify (to_json d)"

text \<open>The test \<^verbatim>\<open>isUniqueDimensions\<close> and the \<^verbatim>\<open>push\<close> it guards.\<close>

definition isUniqueDimensions :: "Dimensions list \<Rightarrow> Dimensions \<Rightarrow> bool" where
  "isUniqueDimensions acc d \<longleftrightarrow> \<not> (JSON_stringify d \<in> set (map JSON_stringify acc))"

definition push_unique :: "Dimensions list \<Rightarrow> Dimensions \<Rightarrow> Dimensions list" where
  "push_unique acc d = (if isUniqueDimensions acc d then acc @ [d] else acc)"

definition xcparse_arguments :: "string option \<Rightarrow> string option list" where
  "xcparse_arguments output = [Some ''attachments'', output, Some DERIVED_DATA]"

text \<open>\<^verbatim>\<open>const [output] = ...\<close>: the first match, or \<^verbatim>\<open>undefined\<close> when there is none.\<close>

fun first_match :: "string list \<Rightarrow> string option" where
  "first_match [] = None"
| "first_match (x # xs) = Some x"

definition parsing_extracted_dimensions :: "device_run \<Rightarrow> task" where
  "parsing_extracted_dimensions R s =
     (case xcresult R of
        Inl e \<Rightarrow> (Some e, s)
      | Inr found \<Rightarrow>
          let output = first_match found;
              s1 = s\<lparr>commands := commands s @ [(''xcparse'', xcparse_arguments output)]\<rparr>
          in case xcparse R output of
               Some e \<Rightarrow> (Some e, s1)
             | None \<Rightarrow>
                 (case attachments R of
                    Inl e \<Rightarrow> (Some e, s1)
                  | Inr as \<Rightarrow>
                      (case attachment_loop undefined_dimensions as of
                         Inl e \<Rightarrow> (Some e, s1)
                       | Inr d \<Rightarrow>
                           (None, s1\<lparr>ctx := (ctx s1)
                              \<lparr>dimensions := push_unique (dimensions (ctx s1)) d\<rparr>\<rparr>))))"

subsection \<open>Cleaning up extraction cache\<close>

text \<open>
  Modelled from the spec: \<^verbatim>\<open>utils/trash\<close> is not among the sources. The spec has it
  remove the scratch location; as an awaited call it may also reject, and then nothing is
  removed.
\<close>

definition cleaning_up_extraction_cache :: "device_run \<Rightarrow> task" where
  "cleaning_up_extraction_cache R s =
     (case trash R of
        Some e \<Rightarrow> (Some e, s)
      | None \<Rightarrow> (None, s\<lparr>derived_data := False\<rparr>))"

subsection \<open>Gathering dimensions\<close>

text \<open>The task of one device returns the list of its three tasks.\<close>

definition device_task :: "env \<Rightarrow> SimulatorDevice \<Rightarrow> task" where
  "device_task E d =
     listr [extracting_dimensions (simulator E d) d,
            parsing_extracted_dimensions (simulator E d),
            cleaning_up_extraction_cache (simulator E d)]"

definition gathering_dimensions :: "env \<Rightarrow> task" where
  "gathering_dimensions E s =
     (let s0 = s\<lparr>ctx := (ctx s)\<lparr>dimensions := []\<rparr>\<rparr>
      in listr (map (device_task E) (devices (ctx s0))) s0)"

subsection \<open>Sorting dimensions\<close>

text \<open>
  \<^verbatim>\<open>utils/get-hash-code\<close> is not among the sources: the hash is a parameter. The
  comparator is the difference of two hashes, and \<^verbatim>\<open>Array.prototype.sort\<close> is stable, so
  the task is the stable sort by the hash.
\<close>

definition sorting_dimensions :: "(Dimensions \<Rightarrow> int) \<Rightarrow> task" where
  "sorting_dimensions getHashCode s =
     (None, s\<lparr>ctx := (ctx s)\<lparr>dimensions := sort_key getHashCode (dimensions (ctx s))\<rparr>\<rparr>)"

subsection \<open>Generating files\<close>

definition generating_files :: "env \<Rightarrow> task" where
  "generating_files E s =
     (case writeJSON E DIMENSIONS of
        Some e \<Rightarrow> (Some e, s)
      | None \<Rightarrow>
          let s1 = s\<lparr>files := (files s)(DIMENSIONS \<mapsto> JArr (map to_json (dimensions (ctx s))))\<rparr>
          in case writeJSON E LOGS of
               Some e \<Rightarrow> (Some e, s1)
             | None \<Rightarrow>
                 (None, s1\<lparr>files := (files s1)(LOGS \<mapsto> JObj [(''platform'', JStr (platform (ctx s1)))])\<rparr>))"

subsection \<open>The run\<close>

definition tasks :: "env \<Rightarrow> (Dimensions \<Rightarrow> int) \<Rightarrow> task list" where
  "tasks E getHashCode =
     [verifying_requirements E, gathering_devices E, gathering_dimensions E,
      sorting_dimensions getHashCode, generating_files E]"

text \<open>
  Modelled from the spec: \<^verbatim>\<open>utils/silent-error\<close> is not among the sources. The spec has
  the silent error as a dedicated error variant, which \<open>isSilentError\<close> recognises.
\<close>

fun isSilentError :: "error \<Rightarrow> bool" where
  "isSilentError (SilentError m) = True"
| "isSilentError _ = False"

text \<open>\<^verbatim>\<open>tasks.run().catch(...)\<close>: the handler returns on a silent error and prints any other.\<close>

definition run :: "env \<Rightarrow> (Dimensions \<Rightarrow> int) \<Rightarrow> state \<Rightarrow> state" where
  "run E getHashCode s =
     (case listr (tasks E getHashCode) s of
        (None, s') \<Rightarrow> s'
      | (Some e, s') \<Rightarrow> if isSilentError e then s' else s'\<lparr>console := console s' @ [e]\<rparr>)"

subsection \<open>The assembler\<close>

text \<open>
  What the run does to the records of the devices, apart from everything else: each is
  pushed when unique, in the order of the devices, and the result is sorted.
\<close>

definition accumulate :: "Dimensions list \<Rightarrow> Dimensions list" where
  "accumulate ds = foldl push_unique [] ds"

definition DatasetAssembler :: "(Dimensions \<Rightarrow> int) \<Rightarrow> Dimensions list \<Rightarrow> Dimensions list" where
  "DatasetAssembler getHashCode ds = sort_key getHashCode (accumulate ds)"

subsection \<open>What a device contributes\<close>

text \<open>
  The record the parsing task assembles for a device, when it gets that far, and when all
  the awaited calls of a device resolve.
\<close>

definition measured :: "device_run \<Rightarrow> Dimensions option" where
  "measured R =
     (case attachments R of
        Inl e \<Rightarrow> None
      | Inr as \<Rightarrow> (case attachment_loop undefined_dimensions as of Inl e \<Rightarrow> None | Inr d \<Rightarrow> Some d))"

definition device_succeeds :: "device_run \<Rightarrow> bool" where
  "device_succeeds R \<longleftrightarrow>
     xcodebuild R = None
     \<and> (case xcresult R of Inl e \<Rightarrow> False | Inr found \<Rightarrow> xcparse R (first_match found) = None)
     \<and> measured R \<noteq> None
     \<and> trash R = None"

definition measurements :: "env \<Rightarrow> SimulatorDevice list \<Rightarrow> Dimensions list" where
  "measurements E ds = List.map_filter (\<lambda>d. measured (simulator E d)) ds"

section \<open>Notions used in the proofs\<close>

text \<open>
  Reading back what the serialisation printed: the digits of a number, the character
  after a number, an escaped character, and the characters a value can start with.
\<close>

definition is_digit :: "char \<Rightarrow> bool" where
  "is_digit c \<longleftrightarrow> 48 \<le> (of_char c :: nat) \<and> (of_char c :: nat) \<le> 57"

definition digit_val :: "char \<Rightarrow> nat" where
  "digit_val c = of_char c - 48"

definition follow :: "string \<Rightarrow> bool" where
  "follow r \<longleftrightarrow> (case r of [] \<Rightarrow> True | c # _ \<Rightarrow> \<not> is_digit c)"

definition val_of :: "string \<Rightarrow> nat" where
  "val_of cs = foldl (\<lambda>a c. a * 10 + digit_val c) 0 cs"

definition hex_val :: "char \<Rightarrow> nat" where
  "hex_val c = (if (of_char c :: nat) < 58 then of_char c - 48 else of_char c - 87)"

fun unescape_first :: "string \<Rightarrow> (char \<times> string) option" where
  "unescape_first [] = None"
| "unescape_first (x # xs) =
     (if x \<noteq> CHR 0x5C then Some (x, xs)
      else (case xs of
          [] \<Rightarrow> None
        | y # ys \<Rightarrow>
            if y = CHR ''b'' then Some (CHR 0x08, ys)
            else if y = CHR ''f'' then Some (CHR 0x0C, ys)
            else if y = CHR ''n'' then Some (CHR 0x0A, ys)
            else if y = CHR ''r'' then Some (CHR 0x0D, ys)
            else if y = CHR ''t'' then Some (CHR 0x09, ys)
            else if y = CHR ''u'' then
              (case ys of
                 a # b # h # l # zs \<Rightarrow> Some (char_of (hex_val h * 16 + hex_val l), zs)
               | _ \<Rightarrow> None)
            else Some (y, ys)))"

text \<open>The kind of a value, and the kind its first character announces.\<close>

fun tag :: "json \<Rightarrow> nat" where
  "tag JNull = 0"
| "tag (JBool b) = 1"
| "tag (JNum i) = 2"
| "tag (JStr s) = 3"
| "tag (JArr xs) = 4"
| "tag (JObj kvs) = 5"

definition char_tag :: "char \<Rightarrow> nat" where
  "char_tag c =
     (if c = CHR ''n'' then 0
      else if c = CHR ''t'' \<or> c = CHR ''f'' then 1
      else if c = CHR ''-'' \<or> is_digit c then 2
      else if c = CHR 0x22 then 3
      else if c = CHR ''['' then 4
      else if c = CHR ''{'' then 5
      else 6)"

text \<open>
  What the tasks before the last one leave alone, and the invariant of the accumulator.
\<close>

definition untouched :: "state \<Rightarrow> state \<Rightarrow> bool" where
  "untouched s s' \<longleftrightarrow> files s' = files s \<and> console s' = console s"


subsection \<open>Inputs of the examples\<close>

text \<open>The two attachments of the scenario of the spec, and the record they give.\<close>

definition portrait_attachment :: json where
  "portrait_attachment =
     JObj [(''orientation'', JStr ''portrait''), (''device'', JStr ''iPhone''),
           (''scale'', JNum 3), (''radius'', JNum 0),
           (''screen'', JObj [(''width'', JNum 390), (''height'', JNum 844)])]"

definition landscape_attachment :: json where
  "landscape_attachment =
     JObj [(''orientation'', JStr ''landscape''), (''device'', JStr ''iPhone''),
           (''scale'', JNum 3), (''radius'', JNum 0),
           (''screen'', JObj [(''width'', JNum 844), (''height'', JNum 390)])]"

definition iphone :: Dimensions where
  "iphone =
     \<lparr>device = Some (JStr ''iPhone''),
      landscape = Some (JObj [(''screen'', JObj [(''width'', JNum 844), (''height'', JNum 390)])]),
      portrait = Some (JObj [(''screen'', JObj [(''width'', JNum 390), (''height'', JNum 844)])]),
      radius = Some (JNum 0),
      scale = Some (JNum 3)\<rparr>"

text \<open>The same record with rounded corners.\<close>

definition iphone_rounded :: Dimensions where
  "iphone_rounded = iphone\<lparr>radius := Some (JNum 6)\<rparr>"

text \<open>A landscape attachment that disagrees with the portrait one on device, scale and radius.\<close>

definition rounded_attachment :: json where
  "rounded_attachment =
     JObj [(''orientation'', JStr ''landscape''), (''device'', JStr ''iPad''),
           (''scale'', JNum 2), (''radius'', JNum 6),
           (''screen'', JObj [(''width'', JNum 844), (''height'', JNum 390)])]"

text \<open>An attachment whose orientation is neither of the two.\<close>

definition faceup_attachment :: json where
  "faceup_attachment =
     JObj [(''orientation'', JStr ''faceUp''), (''device'', JStr ''iPhone''),
           (''scale'', JNum 3), (''radius'', JNum 0),
           (''screen'', JObj [(''width'', JNum 390), (''height'', JNum 844)])]"

text \<open>Two hashes: one that takes every record to the same value, one that reads the radius.\<close>

definition colliding_hash :: "Dimensions \<Rightarrow> int" where
  "colliding_hash d = 0"

definition radius_hash :: "Dimensions \<Rightarrow> int" where
  "radius_hash d = (case radius d of Some (JNum n) \<Rightarrow> n | _ \<Rightarrow> - 1)"

text \<open>A device, and hosts on which its measurement goes well or not.\<close>

definition iphone14 :: SimulatorDevice where
  "iphone14 = \<lparr>name = ''iPhone 14''\<rparr>"

definition test_bundle :: string where
  "test_bundle = ''/tmp/com.marcbouchenoire.dimensions/Logs/Test/Test.xcresult''"

definition good_run :: device_run where
  "good_run =
     \<lparr>xcodebuild = None,
      xcresult = Inr [test_bundle],
      xcparse = (\<lambda>output. None),
      attachments = Inr [Inr portrait_attachment, Inr landscape_attachment],
      trash = None\<rparr>"

definition portrait_only_run :: device_run where
  "portrait_only_run = good_run\<lparr>attachments := Inr [Inr portrait_attachment]\<rparr>"

definition landscape_only_run :: device_run where
  "landscape_only_run = good_run\<lparr>attachments := Inr [Inr landscape_attachment]\<rparr>"

definition unreadable_run :: device_run where
  "unreadable_run = good_run\<lparr>attachments := Inr [Inl (JSONError ''Unexpected end of JSON input'')]\<rparr>"


definition host :: "device_run \<Rightarrow> env" where
  "host R =
     \<lparr>isMacOS = True, withApp = (\<lambda>app. True), withCommand = (\<lambda>command. True),
      getDevices = Inr ([iphone14], ''iOS 16.0''),
      simulator = (\<lambda>d. R),
      writeJSON = (\<lambda>path. None)\<rparr>"

definition linux_host :: env where
  "linux_host = (host good_run)\<lparr>isMacOS := False\<rparr>"

definition initial :: state where
  "initial =
     \<lparr>ctx = \<lparr>devices = [], dimensions = [], platform = ''''\<rparr>,
      derived_data = False, files = Map.empty, console = [], commands = []\<rparr>"

section \<open>The serialisation is injective\<close>

subsection \<open>Numbers\<close>

lemma of_char_digit_char: "n < 10 \<Longrightarrow> (of_char (digit_char n) :: nat) = 48 + n"
  by (simp add: digit_char_def)

lemma is_digit_digit_char: "n < 10 \<Longrightarrow> is_digit (digit_char n)"
  by (simp add: is_digit_def of_char_digit_char)

lemma digit_val_digit_char: "n < 10 \<Longrightarrow> digit_val (digit_char n) = n"
  by (simp add: digit_val_def of_char_digit_char)

lemma digits_all_digit: "\<forall>c \<in> set (digits n). is_digit c"
proof (induction n rule: digits.induct)
  case (1 n)
  show ?case
  proof (cases "n < 10")
    case True
    then show ?thesis by (simp add: digits.simps[of n] is_digit_digit_char)
  next
    case False
    with 1 show ?thesis by (simp add: digits.simps[of n] is_digit_digit_char)
  qed
qed

lemma digits_nonempty: "digits n \<noteq> []"
  by (cases "n < 10") (simp_all add: digits.simps[of n])

lemma val_of_digits: "val_of (digits n) = n"
proof (induction n rule: digits.induct)
  case (1 n)
  show ?case
  proof (cases "n < 10")
    case True
    then show ?thesis by (simp add: digits.simps[of n] val_of_def digit_val_digit_char)
  next
    case False
    then have "val_of (digits n) = val_of (digits (n div 10)) * 10 + digit_val (digit_char (n mod 10))"
      by (simp add: digits.simps[of n] val_of_def)
    with False 1 show ?thesis by (simp add: digit_val_digit_char)
  qed
qed

lemma digits_inj: "digits n = digits m \<Longrightarrow> n = m"
  by (metis val_of_digits)

lemma takeWhile_digits: "follow r \<Longrightarrow> takeWhile is_digit (digits n @ r) = digits n"
  using digits_all_digit[of n] by (cases r) (simp_all add: follow_def)

lemma dropWhile_digits: "follow r \<Longrightarrow> dropWhile is_digit (digits n @ r) = r"
  using digits_all_digit[of n] by (cases r) (simp_all add: follow_def)

lemma digits_append_inj:
  assumes "follow r" "follow r'" "digits n @ r = digits m @ r'"
  shows "n = m \<and> r = r'"
proof -
  have "digits n = digits m"
    using takeWhile_digits[OF assms(1), of n] takeWhile_digits[OF assms(2), of m] assms(3) by simp
  moreover have "r = r'"
    using dropWhile_digits[OF assms(1), of n] dropWhile_digits[OF assms(2), of m] assms(3) by simp
  ultimately show ?thesis by (simp add: digits_inj)
qed

lemma digits_hd: "\<exists>c cs. digits n = c # cs \<and> is_digit c"
  using digits_nonempty[of n] digits_all_digit[of n] by (cases "digits n") auto

lemma not_digit_minus: "\<not> is_digit CHR ''-''"
  by (simp add: is_digit_def)

lemma number_to_string_append_inj:
  assumes "follow r" "follow r'" "number_to_string i @ r = number_to_string j @ r'"
  shows "i = j \<and> r = r'"
proof (cases "i < 0"; cases "j < 0")
  assume "i < 0" "j < 0"
  with assms digits_append_inj[of r r' "nat (- i)" "nat (- j)"] show ?thesis
    by (auto simp: number_to_string_def)
next
  assume "i < 0" "\<not> j < 0"
  with assms(3) digits_hd[of "nat j"] not_digit_minus show ?thesis
    by (auto simp: number_to_string_def)
next
  assume "\<not> i < 0" "j < 0"
  with assms(3) digits_hd[of "nat i"] not_digit_minus show ?thesis
    by (auto simp: number_to_string_def)
next
  assume "\<not> i < 0" "\<not> j < 0"
  with assms digits_append_inj[of r r' "nat i" "nat j"] show ?thesis
    by (auto simp: number_to_string_def)
qed

lemma number_to_string_hd:
  "\<exists>c cs. number_to_string i = c # cs \<and> (c = CHR ''-'' \<or> is_digit c)"
  using digits_hd[of "nat i"] by (auto simp: number_to_string_def)

subsection \<open>Strings\<close>

lemma hex_val_hex_digit: "n < 16 \<Longrightarrow> hex_val (hex_digit n) = n"
  by (simp add: hex_val_def hex_digit_def)

lemma char_of_hex:
  "(of_char c :: nat) < 32 \<Longrightarrow>
     char_of (hex_val (hex_digit (of_char c div 16)) * 16 + hex_val (hex_digit (of_char c mod 16))) = c"
proof -
  assume "(of_char c :: nat) < 32"
  then have "(of_char c :: nat) div 16 < 16" "(of_char c :: nat) mod 16 < 16" by simp_all
  then show ?thesis by (simp add: hex_val_hex_digit)
qed

lemma unescape_first_escape_char: "unescape_first (escape_char c @ r) = Some (c, r)"
  unfolding escape_char_def by (simp add: char_of_hex)

lemma escape_char_append_inj:
  assumes "escape_char c @ r = escape_char d @ r'"
  shows "c = d \<and> r = r'"
proof -
  have "unescape_first (escape_char c @ r) = unescape_first (escape_char d @ r')"
    using assms by simp
  then show ?thesis by (simp add: unescape_first_escape_char)
qed

lemma escape_char_hd: "\<exists>x xs. escape_char c = x # xs \<and> x \<noteq> CHR 0x22"
  by (simp add: escape_char_def)

lemma escape_append_inj:
  "concat (map escape_char s) @ CHR 0x22 # r = concat (map escape_char t) @ CHR 0x22 # r'
    \<Longrightarrow> s = t \<and> r = r'"
proof (induction s arbitrary: t)
  case Nil
  show ?case
  proof (cases t)
    case Nil
    with Nil.prems show ?thesis by simp
  next
    case (Cons d t')
    obtain x xs where "escape_char d = x # xs" "x \<noteq> CHR 0x22"
      using escape_char_hd by blast
    with Nil.prems Cons show ?thesis by simp
  qed
next
  case (Cons c s)
  show ?case
  proof (cases t)
    case Nil
    obtain x xs where "escape_char c = x # xs" "x \<noteq> CHR 0x22"
      using escape_char_hd by blast
    with Cons.prems Nil show ?thesis by simp
  next
    case (Cons d t')
    with Cons.prems
    have "escape_char c @ (concat (map escape_char s) @ CHR 0x22 # r)
        = escape_char d @ (concat (map escape_char t') @ CHR 0x22 # r')" by simp
    then have "c = d" "concat (map escape_char s) @ CHR 0x22 # r = concat (map escape_char t') @ CHR 0x22 # r'"
      using escape_char_append_inj by blast+
    with Cons.IH[of t'] Cons show ?thesis by simp
  qed
qed

lemma quote_append_inj: "quote s @ r = quote t @ r' \<Longrightarrow> s = t \<and> r = r'"
  using escape_append_inj[of s r t r'] by (simp add: quote_def)

subsection \<open>Values\<close>

lemma quote_hd: "\<exists>cs. quote s = CHR 0x22 # cs"
  by (simp add: quote_def)

lemma char_tag_digit: "is_digit c \<Longrightarrow> char_tag c = 2"
  by (auto simp: char_tag_def is_digit_def)

lemma stringify_hd: "\<exists>c cs. stringify v = c # cs \<and> char_tag c = tag v"
proof (cases v)
  case (JNum i)
  then show ?thesis
    using number_to_string_hd[of i] by (auto simp: char_tag_digit) (simp add: char_tag_def)
next
  case (JStr s)
  then show ?thesis
    using quote_hd[of s] by (auto simp: char_tag_def is_digit_def)
qed (simp_all add: char_tag_def is_digit_def)

lemma tag_less: "tag v < 6"
  by (cases v) simp_all

lemma separators:
  "char_tag CHR '']'' = 6" "char_tag CHR ''}'' = 6" "char_tag CHR '','' = 6"
  by (simp_all add: char_tag_def is_digit_def)

lemma stringify_no_separator:
  "\<exists>c cs. stringify v = c # cs \<and> c \<noteq> CHR '']'' \<and> c \<noteq> CHR ''}'' \<and> c \<noteq> CHR '',''"
proof -
  obtain c cs where "stringify v = c # cs" "char_tag c = tag v"
    using stringify_hd by blast
  with tag_less[of v] separators show ?thesis by auto
qed

lemma follow_simps:
  "follow (CHR '']'' # r)" "follow (CHR ''}'' # r)" "follow (CHR '','' # r)" "follow []"
  by (simp_all add: follow_def is_digit_def)

lemma stringify_kind:
  assumes "stringify v @ r = stringify w @ r'"
  shows "tag v = tag w"
proof -
  obtain c cs where v: "stringify v = c # cs" "char_tag c = tag v"
    using stringify_hd by blast
  obtain c' cs' where w: "stringify w = c' # cs'" "char_tag c' = tag w"
    using stringify_hd by blast
  from assms v(1) w(1) have "c = c'" by simp
  with v(2) w(2) show ?thesis by simp
qed

lemma stringify_append_inj_aux:
  "\<And>w r r'. follow r \<Longrightarrow> follow r' \<Longrightarrow> stringify v @ r = stringify w @ r' \<Longrightarrow> v = w \<and> r = r'"
  "\<And>ys r r'. stringify_elements xs @ CHR '']'' # r = stringify_elements ys @ CHR '']'' # r'
      \<Longrightarrow> xs = ys \<and> r = r'"
  "\<And>ms r r'. stringify_members kvs @ CHR ''}'' # r = stringify_members ms @ CHR ''}'' # r'
      \<Longrightarrow> kvs = ms \<and> r = r'"
proof (induction v and xs and kvs rule: stringify_stringify_elements_stringify_members.induct)
  case 1
  from stringify_kind[OF "1.prems"(3)] have "w = JNull" by (cases w) simp_all
  with "1.prems"(3) show ?case by simp
next
  case (2 b)
  from stringify_kind[OF "2.prems"(3)] obtain b' where "w = JBool b'" by (cases w) simp_all
  with "2.prems"(3) show ?case by (auto split: if_splits)
next
  case (3 i)
  from stringify_kind[OF "3.prems"(3)] obtain j where "w = JNum j" by (cases w) simp_all
  with "3.prems" number_to_string_append_inj[of r r' i j] show ?case by simp
next
  case (4 s)
  from stringify_kind[OF "4.prems"(3)] obtain t where "w = JStr t" by (cases w) simp_all
  with "4.prems" quote_append_inj[of s r t r'] show ?case by simp
next
  case (5 xs)
  from stringify_kind[OF "5.prems"(3)] obtain ys where "w = JArr ys" by (cases w) simp_all
  with "5.prems" "5.IH"[of r ys r'] show ?case by simp
next
  case (6 kvs)
  from stringify_kind[OF "6.prems"(3)] obtain ms where "w = JObj ms" by (cases w) simp_all
  with "6.prems" "6.IH"[of r ms r'] show ?case by simp
next
  case 7
  show ?case
  proof (cases ys)
    case Nil
    with "7.prems" show ?thesis by simp
  next
    case (Cons y ys')
    obtain c cs where "stringify y = c # cs" "c \<noteq> CHR '']''" "c \<noteq> CHR '',''"
      using stringify_no_separator by blast
    with "7.prems" Cons show ?thesis by (cases ys') auto
  qed
next
  case (8 x)
  show ?case
  proof (cases ys)
    case Nil
    obtain c cs where "stringify x = c # cs" "c \<noteq> CHR '']''" "c \<noteq> CHR '',''"
      using stringify_no_separator by blast
    with "8.prems" Nil show ?thesis by auto
  next
    case (Cons y ys')
    show ?thesis
    proof (cases ys')
      case Nil
      with "8.prems" Cons "8.IH"[of "CHR '']'' # r" "CHR '']'' # r'" y] follow_simps
      show ?thesis by simp
    next
      case (Cons z zs)
      with "8.prems" \<open>ys = y # ys'\<close>
        "8.IH"[of "CHR '']'' # r" "CHR '','' # stringify_elements (z # zs) @ CHR '']'' # r'" y] follow_simps
      show ?thesis by simp
    qed
  qed
next
  case (9 x y ys0)
  show ?case
  proof (cases ys)
    case Nil
    obtain c cs where "stringify x = c # cs" "c \<noteq> CHR '']''" "c \<noteq> CHR '',''"
      using stringify_no_separator by blast
    with "9.prems" Nil show ?thesis by auto
  next
    case (Cons u us)
    show ?thesis
    proof (cases us)
      case Nil
      with "9.prems" Cons
        "9.IH"(1)[of "CHR '','' # stringify_elements (y # ys0) @ CHR '']'' # r" "CHR '']'' # r'" u] follow_simps
      show ?thesis by simp
    next
      case (Cons z zs)
      with "9.prems" \<open>ys = u # us\<close>
        "9.IH"(1)[of "CHR '','' # stringify_elements (y # ys0) @ CHR '']'' # r"
                     "CHR '','' # stringify_elements (z # zs) @ CHR '']'' # r'" u] follow_simps
      have "x = u" "stringify_elements (y # ys0) @ CHR '']'' # r = stringify_elements (z # zs) @ CHR '']'' # r'"
        by simp_all
      with "9.IH"(2)[of r "z # zs" r'] Cons \<open>ys = u # us\<close> show ?thesis by simp
    qed
  qed
next
  case 10
  show ?case
  proof (cases ms)
    case Nil
    with "10.prems" show ?thesis by simp
  next
    case (Cons m ms')
    obtain k v where "m = (k, v)" by (cases m)
    moreover obtain cs where "quote k = CHR 0x22 # cs" using quote_hd by blast
    ultimately show ?thesis using "10.prems" Cons by (cases ms') auto
  qed
next
  case (11 k v)
  obtain cs where q: "quote k = CHR 0x22 # cs" using quote_hd by blast
  show ?case
  proof (cases ms)
    case Nil
    with "11.prems" q show ?thesis by simp
  next
    case (Cons m ms')
    obtain k' v' where m: "m = (k', v')" by (cases m)
    show ?thesis
    proof (cases ms')
      case Nil
      with "11.prems" Cons m
      have "quote k @ (CHR '':'' # stringify v @ CHR ''}'' # r)
          = quote k' @ (CHR '':'' # stringify v' @ CHR ''}'' # r')" by simp
      then have "k = k'" "stringify v @ CHR ''}'' # r = stringify v' @ CHR ''}'' # r'"
        using quote_append_inj by blast+
      with "11.IH"[of "CHR ''}'' # r" "CHR ''}'' # r'" v'] follow_simps Nil Cons m
      show ?thesis by simp
    next
      case (Cons z zs)
      with "11.prems" \<open>ms = m # ms'\<close> m
      have "quote k @ (CHR '':'' # stringify v @ CHR ''}'' # r)
          = quote k' @ (CHR '':'' # stringify v' @ CHR '','' # stringify_members (z # zs) @ CHR ''}'' # r')"
        by simp
      then have "stringify v @ CHR ''}'' # r
          = stringify v' @ CHR '','' # stringify_members (z # zs) @ CHR ''}'' # r'"
        using quote_append_inj by blast
      with "11.IH"[of "CHR ''}'' # r" "CHR '','' # stringify_members (z # zs) @ CHR ''}'' # r'" v'] follow_simps
      show ?thesis by simp
    qed
  qed
next
  case (12 k v m0 ms0)
  obtain cs where q: "quote k = CHR 0x22 # cs" using quote_hd by blast
  show ?case
  proof (cases ms)
    case Nil
    with "12.prems" q show ?thesis by simp
  next
    case (Cons m ms')
    obtain k' v' where m: "m = (k', v')" by (cases m)
    show ?thesis
    proof (cases ms')
      case Nil
      with "12.prems" Cons m
      have "quote k @ (CHR '':'' # stringify v @ CHR '','' # stringify_members (m0 # ms0) @ CHR ''}'' # r)
          = quote k' @ (CHR '':'' # stringify v' @ CHR ''}'' # r')" by simp
      then have "stringify v @ CHR '','' # stringify_members (m0 # ms0) @ CHR ''}'' # r
          = stringify v' @ CHR ''}'' # r'"
        using quote_append_inj by blast
      with "12.IH"(1)[of "CHR '','' # stringify_members (m0 # ms0) @ CHR ''}'' # r" "CHR ''}'' # r'" v']
        follow_simps
      show ?thesis by simp
    next
      case (Cons z zs)
      with "12.prems" \<open>ms = m # ms'\<close> m
      have "quote k @ (CHR '':'' # stringify v @ CHR '','' # stringify_members (m0 # ms0) @ CHR ''}'' # r)
          = quote k' @ (CHR '':'' # stringify v' @ CHR '','' # stringify_members (z # zs) @ CHR ''}'' # r')"
        by simp
      then have k: "k = k'" and "stringify v @ CHR '','' # stringify_members (m0 # ms0) @ CHR ''}'' # r
          = stringify v' @ CHR '','' # stringify_members (z # zs) @ CHR ''}'' # r'"
        using quote_append_inj by blast+
      with "12.IH"(1)[of "CHR '','' # stringify_members (m0 # ms0) @ CHR ''}'' # r"
                         "CHR '','' # stringify_members (z # zs) @ CHR ''}'' # r'" v'] follow_simps
      have "v = v'" "stringify_members (m0 # ms0) @ CHR ''}'' # r = stringify_members (z # zs) @ CHR ''}'' # r'"
        by simp_all
      with "12.IH"(2)[of r "z # zs" r'] k Cons \<open>ms = m # ms'\<close> m show ?thesis by simp
    qed
  qed
qed

lemma stringify_inj: "stringify v = stringify w \<Longrightarrow> v = w"
  using stringify_append_inj_aux(1)[of "[]" "[]" v w] by (simp add: follow_simps)

section \<open>Deduplication\<close>

lemma property_append_inj:
  assumes "k \<notin> fst ` set xs" "k \<notin> fst ` set ys" "property k a @ xs = property k b @ ys"
  shows "a = b \<and> xs = ys"
  using assms by (cases a; cases b) auto

lemma property_not_key: "k \<noteq> k' \<Longrightarrow> k \<notin> fst ` set (property k' v)"
  by (cases v) simp_all

lemma to_json_inj:
  assumes "to_json d = to_json e"
  shows "d = e"
proof -
  let ?t4 = "\<lambda>x. property ''scale'' (scale x) @ []"
  let ?t3 = "\<lambda>x. property ''radius'' (radius x) @ ?t4 x"
  let ?t2 = "\<lambda>x. property ''portrait'' (portrait x) @ ?t3 x"
  let ?t1 = "\<lambda>x. property ''landscape'' (landscape x) @ ?t2 x"
  have n1: "''device'' \<notin> fst ` set (?t1 x)" for x
    by (simp add: image_Un property_not_key)
  have n2: "''landscape'' \<notin> fst ` set (?t2 x)" for x
    by (simp add: image_Un property_not_key)
  have n3: "''portrait'' \<notin> fst ` set (?t3 x)" for x
    by (simp add: image_Un property_not_key)
  have n4: "''radius'' \<notin> fst ` set (?t4 x)" for x
    by (simp add: image_Un property_not_key)
  have n5: "''scale'' \<notin> fst ` set ([] :: (string \<times> json) list)"
    by simp
  from assms have "property ''device'' (device d) @ ?t1 d = property ''device'' (device e) @ ?t1 e"
    by (simp add: to_json_def)
  from property_append_inj[OF n1 n1 this] have 1: "device d = device e" and e1: "?t1 d = ?t1 e"
    by blast+
  from property_append_inj[OF n2 n2 e1] have 2: "landscape d = landscape e" and e2: "?t2 d = ?t2 e"
    by blast+
  from property_append_inj[OF n3 n3 e2] have 3: "portrait d = portrait e" and e3: "?t3 d = ?t3 e"
    by blast+
  from property_append_inj[OF n4 n4 e3] have 4: "radius d = radius e" and e4: "?t4 d = ?t4 e"
    by blast+
  from property_append_inj[OF n5 n5 e4] have 5: "scale d = scale e"
    by blast
  from 1 2 3 4 5 show ?thesis by simp
qed

lemma JSON_stringify_inj: "JSON_stringify d = JSON_stringify e \<longleftrightarrow> d = e"
  using stringify_inj to_json_inj by (auto simp: JSON_stringify_def)

lemma isUniqueDimensions_iff: "isUniqueDimensions acc d \<longleftrightarrow> d \<notin> set acc"
  by (auto simp: isUniqueDimensions_def JSON_stringify_inj)

lemma push_unique_eq: "push_unique acc d = (if d \<in> set acc then acc else acc @ [d])"
  by (simp add: push_unique_def isUniqueDimensions_iff)

lemma accumulate_snoc: "accumulate (ds @ [d]) = push_unique (accumulate ds) d"
  by (simp add: accumulate_def)

lemma accumulate_first_seen: "accumulate ds = rev (remdups (rev ds))"
proof (induction ds rule: rev_induct)
  case Nil
  show ?case by (simp add: accumulate_def)
next
  case (snoc d ds)
  then show ?case by (simp add: accumulate_snoc push_unique_eq)
qed

lemma set_accumulate: "set (accumulate ds) = set ds"
  by (simp add: accumulate_first_seen)

lemma distinct_accumulate: "distinct (accumulate ds)"
  by (simp add: accumulate_first_seen)




lemma DatasetAssembler_collision:
  assumes "a \<noteq> b" "h a = h b"
  shows "DatasetAssembler h [a, b] = [a, b]" "DatasetAssembler h [b, a] = [b, a]"
  using assms by (simp_all add: DatasetAssembler_def accumulate_def push_unique_eq)


section \<open>The loop over the attachments\<close>

lemma attachment_step_parsed:
  assumes "a \<noteq> JNull"
  shows "attachment_step d (Inr a) =
     Inr (if is_portrait a
          then d\<lparr>device := get_property a ''device'', scale := get_property a ''scale'',
                 radius := get_property a ''radius'', portrait := Some (JObj (rest_properties a))\<rparr>
          else d\<lparr>device := get_property a ''device'', scale := get_property a ''scale'',
                 radius := get_property a ''radius'', landscape := Some (JObj (rest_properties a))\<rparr>)"
  using assms by (cases a) (simp_all add: Let_def)

lemma attachment_loop_snoc:
  "attachment_loop d (as @ [a]) =
     (case attachment_loop d as of Inl e \<Rightarrow> Inl e | Inr d' \<Rightarrow> attachment_step d' a)"
  by (induction as arbitrary: d) (auto split: sum.splits)

lemma attachment_loop_parsed:
  assumes "\<forall>a \<in> set as. a \<noteq> JNull"
  shows "\<exists>d'. attachment_loop d (map Inr as) = Inr d'"
  using assms
proof (induction as arbitrary: d)
  case Nil
  show ?case by simp
next
  case (Cons a as)
  then show ?case by (simp add: attachment_step_parsed)
qed

lemma attachment_loop_last:
  assumes "as \<noteq> []" "\<forall>a \<in> set as. a \<noteq> JNull"
  shows "\<exists>d0. attachment_loop d (map Inr as) = attachment_step d0 (Inr (last as))"
proof -
  from assms(1) obtain bs b where as: "as = bs @ [b]" by (metis rev_exhaust)
  with assms(2) obtain d0 where "attachment_loop d (map Inr bs) = Inr d0"
    using attachment_loop_parsed[of bs d] by auto
  with as show ?thesis by (auto simp: attachment_loop_snoc)
qed

lemma loop_ends_with_last:
  assumes "as \<noteq> []" "\<forall>a \<in> set as. a \<noteq> JNull"
  shows "\<exists>d'. attachment_loop d (map Inr as) = Inr d'
      \<and> device d' = get_property (last as) ''device''
      \<and> scale d' = get_property (last as) ''scale''
      \<and> radius d' = get_property (last as) ''radius''"
proof -
  from attachment_loop_last[OF assms] obtain d0
    where "attachment_loop d (map Inr as) = attachment_step d0 (Inr (last as))" ..
  moreover have "last as \<noteq> JNull" using assms by simp
  ultimately show ?thesis by (simp add: attachment_step_parsed)
qed

lemma only_portrait_aux:
  assumes "\<forall>a \<in> set as. a \<noteq> JNull \<and> is_portrait a"
  shows "\<exists>d'. attachment_loop d (map Inr as) = Inr d' \<and> landscape d' = landscape d
     \<and> portrait d' = (if as = [] then portrait d else Some (JObj (rest_properties (last as))))"
  using assms
proof (induction as arbitrary: d)
  case Nil
  show ?case by simp
next
  case (Cons a as)
  let ?d1 = "d\<lparr>device := get_property a ''device'', scale := get_property a ''scale'',
                 radius := get_property a ''radius'', portrait := Some (JObj (rest_properties a))\<rparr>"
  from Cons.prems have "\<forall>a \<in> set as. a \<noteq> JNull \<and> is_portrait a" by simp
  from Cons.IH[OF this, of ?d1] Cons.prems show ?case
    by (auto simp: attachment_step_parsed)
qed

lemma only_landscape_aux:
  assumes "\<forall>a \<in> set as. a \<noteq> JNull \<and> \<not> is_portrait a"
  shows "\<exists>d'. attachment_loop d (map Inr as) = Inr d' \<and> portrait d' = portrait d
     \<and> landscape d' = (if as = [] then landscape d else Some (JObj (rest_properties (last as))))"
  using assms
proof (induction as arbitrary: d)
  case Nil
  show ?case by simp
next
  case (Cons a as)
  let ?d1 = "d\<lparr>device := get_property a ''device'', scale := get_property a ''scale'',
                 radius := get_property a ''radius'', landscape := Some (JObj (rest_properties a))\<rparr>"
  from Cons.prems have "\<forall>a \<in> set as. a \<noteq> JNull \<and> \<not> is_portrait a" by simp
  from Cons.IH[OF this, of ?d1] Cons.prems show ?case
    by (auto simp: attachment_step_parsed)
qed

lemma parsing_extracted_dimensions_ok:
  assumes "xcresult R = Inr found" "xcparse R (first_match found) = None"
    "attachments R = Inr as" "attachment_loop undefined_dimensions as = Inr d"
  shows "parsing_extracted_dimensions R s =
     (None, s\<lparr>commands := commands s @ [(''xcparse'', xcparse_arguments (first_match found))],
              ctx := (ctx s)\<lparr>dimensions := push_unique (dimensions (ctx s)) d\<rparr>\<rparr>)"
  using assms by (simp add: parsing_extracted_dimensions_def Let_def)

section \<open>Running lists of tasks\<close>

lemma listr_invariant:
  assumes "\<And>t s. t \<in> set ts \<Longrightarrow> P s \<Longrightarrow> P (snd (t s))" "P s"
  shows "P (snd (listr ts s))"
  using assms
proof (induction ts arbitrary: s)
  case Nil
  then show ?case by simp
next
  case (Cons t ts)
  obtain r s' where ts: "t s = (r, s')" by (cases "t s")
  with Cons.prems(1)[of t s] Cons.prems(2) have P': "P s'" by simp
  show ?case
  proof (cases r)
    case None
    with ts Cons.IH[of s'] Cons.prems(1) P' show ?thesis by simp
  next
    case (Some e)
    with ts P' show ?thesis by simp
  qed
qed

lemma listr_append:
  "listr (ts @ us) s = (case listr ts s of (Some e, s') \<Rightarrow> (Some e, s') | (None, s') \<Rightarrow> listr us s')"
  by (induction ts arbitrary: s) (auto split: prod.splits option.splits)

lemma untouched_refl: "untouched s s"
  by (simp add: untouched_def)

lemma verifying_requirements_snd: "snd (verifying_requirements E s) = s"
  by (simp add: verifying_requirements_def)

lemma verifying_requirements_error:
  "fst (verifying_requirements E s) = Some e \<Longrightarrow> \<exists>m. e = SilentError m"
  by (auto simp: verifying_requirements_def split: if_splits)


lemma verifying_requirements_passes:
  "isMacOS E \<and> withApp E ''Xcode'' \<and> withCommand E ''xcodebuild'' \<and> withCommand E ''xcparse''
    \<Longrightarrow> verifying_requirements E s = (None, s)"
  by (simp add: verifying_requirements_def)

lemma gathering_devices_untouched: "untouched s0 s \<Longrightarrow> untouched s0 (snd (gathering_devices E s))"
  by (auto simp: gathering_devices_def untouched_def split: sum.splits)

lemma extracting_dimensions_untouched:
  "untouched s0 s \<Longrightarrow> untouched s0 (snd (extracting_dimensions R d s))"
  by (auto simp: extracting_dimensions_def untouched_def Let_def split: option.splits)

lemma parsing_extracted_dimensions_untouched:
  "untouched s0 s \<Longrightarrow> untouched s0 (snd (parsing_extracted_dimensions R s))"
  by (auto simp: parsing_extracted_dimensions_def untouched_def Let_def split: sum.splits option.splits)

lemma cleaning_up_extraction_cache_untouched:
  "untouched s0 s \<Longrightarrow> untouched s0 (snd (cleaning_up_extraction_cache R s))"
  by (auto simp: cleaning_up_extraction_cache_def untouched_def split: option.splits)

lemma device_task_untouched: "untouched s0 s \<Longrightarrow> untouched s0 (snd (device_task E d s))"
  unfolding device_task_def
  by (rule listr_invariant)
     (auto simp: extracting_dimensions_untouched parsing_extracted_dimensions_untouched
        cleaning_up_extraction_cache_untouched)

lemma gathering_dimensions_untouched:
  assumes "untouched s0 s"
  shows "untouched s0 (snd (gathering_dimensions E s))"
proof -
  have "untouched s0 (s\<lparr>ctx := (ctx s)\<lparr>dimensions := []\<rparr>\<rparr>)"
    using assms by (simp add: untouched_def)
  then show ?thesis
    unfolding gathering_dimensions_def Let_def
    by (rule listr_invariant[rotated]) (auto simp: device_task_untouched)
qed

lemma sorting_dimensions_untouched: "untouched s0 s \<Longrightarrow> untouched s0 (snd (sorting_dimensions h s))"
  by (simp add: sorting_dimensions_def untouched_def)

lemma before_generating_untouched:
  "untouched s (snd (listr [verifying_requirements E, gathering_devices E,
      gathering_dimensions E, sorting_dimensions h] s))"
  by (rule listr_invariant[rotated], rule untouched_refl)
     (auto simp: verifying_requirements_snd gathering_devices_untouched
        gathering_dimensions_untouched sorting_dimensions_untouched)

lemma generating_files_console: "console (snd (generating_files E s)) = console s"
  by (simp add: generating_files_def Let_def split: option.splits)

lemma tasks_split:
  "listr (tasks E h) s =
    (case listr [verifying_requirements E, gathering_devices E, gathering_dimensions E,
                 sorting_dimensions h] s of
       (Some e, s') \<Rightarrow> (Some e, s')
     | (None, s') \<Rightarrow> generating_files E s')"
proof -
  have "tasks E h = [verifying_requirements E, gathering_devices E, gathering_dimensions E,
      sorting_dimensions h] @ [generating_files E]"
    by (simp add: tasks_def)
  then show ?thesis
    by (simp only: listr_append) (auto split: prod.splits option.splits)
qed

lemma tasks_console: "console (snd (listr (tasks E h) s)) = console s"
  using before_generating_untouched[of s E h]
  by (auto simp: tasks_split untouched_def generating_files_console split: prod.splits option.splits)


lemma run_console:
  assumes "fst (listr (tasks E h) s) = Some e"
  shows "console (run E h s) = (if isSilentError e then console s else console s @ [e])"
  using assms tasks_console[of E h s] by (auto simp: run_def split: prod.splits option.splits)


lemma isSilentError_iff: "isSilentError e \<longleftrightarrow> (\<exists>m. e = SilentError m)"
  by (cases e) simp_all


section \<open>The tasks of one device\<close>

lemma device_task_unfold:
  "device_task E d s =
     (case extracting_dimensions (simulator E d) d s of
        (Some e, s1) \<Rightarrow> (Some e, s1)
      | (None, s1) \<Rightarrow>
          (case parsing_extracted_dimensions (simulator E d) s1 of
             (Some e, s2) \<Rightarrow> (Some e, s2)
           | (None, s2) \<Rightarrow> cleaning_up_extraction_cache (simulator E d) s2))"
  by (auto simp: device_task_def split: prod.splits option.splits)

lemma extracting_dimensions_ok:
  "fst (extracting_dimensions R d s) = None \<longleftrightarrow> xcodebuild R = None"
  by (auto simp: extracting_dimensions_def Let_def split: option.splits)

lemma extracting_dimensions_derived_data:
  "xcodebuild R = None \<Longrightarrow> derived_data (snd (extracting_dimensions R d s))"
  by (simp add: extracting_dimensions_def Let_def)

lemma parsing_extracted_dimensions_derived_data:
  "derived_data (snd (parsing_extracted_dimensions R s)) = derived_data s"
  by (auto simp: parsing_extracted_dimensions_def Let_def split: sum.splits option.splits)

lemma cleaning_up_extraction_cache_derived_data:
  "derived_data (snd (cleaning_up_extraction_cache R s)) =
     (case fst (cleaning_up_extraction_cache R s) of None \<Rightarrow> False | Some e \<Rightarrow> derived_data s)"
  by (auto simp: cleaning_up_extraction_cache_def split: option.splits)

lemma device_task_completes:
  assumes "fst (device_task E d s) = None"
  shows "\<not> derived_data (snd (device_task E d s))"
  using assms cleaning_up_extraction_cache_derived_data
  by (auto simp: device_task_unfold split: prod.splits option.splits)

lemma device_task_stops:
  assumes "xcodebuild (simulator E d) = None" "fst (device_task E d s) \<noteq> None"
  shows "derived_data (snd (device_task E d s))"
proof -
  let ?R = "simulator E d"
  obtain s1 where 1: "extracting_dimensions ?R d s = (None, s1)" "derived_data s1"
    using extracting_dimensions_ok[of ?R d s] extracting_dimensions_derived_data[of ?R d s] assms(1)
    by (cases "extracting_dimensions ?R d s") auto
  obtain r2 s2 where 2: "parsing_extracted_dimensions ?R s1 = (r2, s2)"
    by (cases "parsing_extracted_dimensions ?R s1")
  with parsing_extracted_dimensions_derived_data[of ?R s1] 1 have d2: "derived_data s2" by simp
  show ?thesis
  proof (cases r2)
    case (Some e)
    with 1 2 d2 show ?thesis by (simp add: device_task_unfold)
  next
    case None
    with 1 2 assms(2) have "fst (cleaning_up_extraction_cache ?R s2) \<noteq> None"
      by (simp add: device_task_unfold)
    with cleaning_up_extraction_cache_derived_data[of ?R s2] d2 None 1 2 show ?thesis
      by (auto simp: device_task_unfold)
  qed
qed

lemma device_task_succeeds:
  assumes "device_succeeds (simulator E d)"
  shows "\<exists>m s'. measured (simulator E d) = Some m \<and> device_task E d s = (None, s')
     \<and> dimensions (ctx s') = push_unique (dimensions (ctx s)) m
     \<and> devices (ctx s') = devices (ctx s) \<and> platform (ctx s') = platform (ctx s)
     \<and> \<not> derived_data s'"
proof -
  let ?R = "simulator E d"
  from assms obtain found as m where R: "xcodebuild ?R = None" "xcresult ?R = Inr found"
    "xcparse ?R (first_match found) = None" "attachments ?R = Inr as"
    "attachment_loop undefined_dimensions as = Inr m" "trash ?R = None"
    by (auto simp: device_succeeds_def measured_def split: sum.splits)
  then have "measured ?R = Some m" by (simp add: measured_def)
  moreover have "extracting_dimensions ?R d s =
      (None, s\<lparr>commands := commands s @ [(''xcodebuild'', xcodebuild_arguments d)], derived_data := True\<rparr>)"
    using R(1) by (simp add: extracting_dimensions_def Let_def)
  ultimately show ?thesis
    using R parsing_extracted_dimensions_ok[OF R(2,3,4,5)]
    by (simp add: device_task_unfold cleaning_up_extraction_cache_def)
qed

lemma listr_devices_succeed:
  assumes "\<forall>d \<in> set ds. device_succeeds (simulator E d)"
  shows "\<exists>s'. listr (map (device_task E) ds) s = (None, s')
     \<and> dimensions (ctx s') = foldl push_unique (dimensions (ctx s)) (measurements E ds)
     \<and> platform (ctx s') = platform (ctx s)"
  using assms
proof (induction ds arbitrary: s)
  case Nil
  show ?case by (simp add: measurements_def map_filter_simps)
next
  case (Cons d ds)
  from Cons.prems have "device_succeeds (simulator E d)" by simp
  from device_task_succeeds[OF this, of s] obtain m s1 where 1:
    "measured (simulator E d) = Some m" "device_task E d s = (None, s1)"
    "dimensions (ctx s1) = push_unique (dimensions (ctx s)) m" "platform (ctx s1) = platform (ctx s)"
    by blast
  from Cons.prems have "\<forall>d \<in> set ds. device_succeeds (simulator E d)" by simp
  from Cons.IH[OF this, of s1] 1 show ?case
    by (auto simp: measurements_def map_filter_simps)
qed

lemma gathering_dimensions_succeeds:
  assumes "\<forall>d \<in> set (devices (ctx s)). device_succeeds (simulator E d)"
  shows "\<exists>s'. gathering_dimensions E s = (None, s')
     \<and> dimensions (ctx s') = accumulate (measurements E (devices (ctx s)))
     \<and> platform (ctx s') = platform (ctx s)"
  using listr_devices_succeed[of "devices (ctx s)" E "s\<lparr>ctx := (ctx s)\<lparr>dimensions := []\<rparr>\<rparr>"] assms
  by (simp add: gathering_dimensions_def accumulate_def Let_def)

lemma run_writes_assembled_dataset:
  assumes "isMacOS E \<and> withApp E ''Xcode'' \<and> withCommand E ''xcodebuild'' \<and> withCommand E ''xcparse''"
    "getDevices E = Inr (ds, p)" "\<forall>d \<in> set ds. device_succeeds (simulator E d)"
    "writeJSON E DIMENSIONS = None" "writeJSON E LOGS = None"
  shows "files (run E h s) =
     (files s)(DIMENSIONS \<mapsto> JArr (map to_json (DatasetAssembler h (measurements E ds))),
               LOGS \<mapsto> JObj [(''platform'', JStr p)])"
proof -
  let ?s1 = "s\<lparr>ctx := (ctx s)\<lparr>devices := ds, platform := p\<rparr>\<rparr>"
  have 1: "gathering_devices E s = (None, ?s1)"
    using assms(2) by (simp add: gathering_devices_def)
  from gathering_dimensions_succeeds[of ?s1 E] assms(3) obtain s2 where 2:
    "gathering_dimensions E ?s1 = (None, s2)"
    "dimensions (ctx s2) = accumulate (measurements E ds)" "platform (ctx s2) = p"
    by auto
  have "untouched ?s1 (snd (gathering_dimensions E ?s1))"
    by (rule gathering_dimensions_untouched) (rule untouched_refl)
  with 2 have 3: "files s2 = files s" by (simp add: untouched_def)
  show ?thesis
    using verifying_requirements_passes[OF assms(1), of s] 1 2 3 assms(4,5)
    by (simp add: run_def tasks_def sorting_dimensions_def generating_files_def Let_def
        DatasetAssembler_def)
qed




section \<open>The scenario of the spec\<close>

text \<open>
  The portrait and the landscape attachment of one device give the record of the
  scenario, and a run on a host where everything goes well writes the assembled dataset
  and the platform.
\<close>

lemma measured_good_run: "measured good_run = Some iphone"
  by (simp add: measured_def good_run_def portrait_attachment_def landscape_attachment_def
      undefined_dimensions_def is_portrait_def iphone_def)

lemma iphone_neq: "iphone \<noteq> iphone_rounded"
  by (simp add: iphone_def iphone_rounded_def)

section \<open>The claims\<close>

subsection \<open>C1: the order of the dataset\<close>

text \<open>
  Claim C1 says that any two permutations of the same records give the same dataset, also
  when two distinct records have equal hashes. The sort compares hashes only and is
  stable, so two distinct records with one hash stay in the order they were accumulated
  in: with the hash that collides on them, the two orders of the two records of the
  examples give two different datasets.
\<close>

theorem order_depends_on_discovery_counterexample:
  "mset [iphone, iphone_rounded] = mset [iphone_rounded, iphone]
   \<and> colliding_hash iphone = colliding_hash iphone_rounded
   \<and> DatasetAssembler colliding_hash [iphone, iphone_rounded]
       \<noteq> DatasetAssembler colliding_hash [iphone_rounded, iphone]"
  using DatasetAssembler_collision[of iphone iphone_rounded colliding_hash] iphone_neq
  by (simp add: colliding_hash_def)

text \<open>
  Claim C1, amended: for every list of records on which the hash takes no value twice,
  accumulating and sorting any two permutations of the list gives the same sequence.
\<close>

theorem order_independent_without_collisions:
  assumes "mset xs = mset ys" "inj_on getHashCode (set xs)"
  shows "DatasetAssembler getHashCode xs = DatasetAssembler getHashCode ys"
proof -
  have s: "set xs = set ys" using assms(1) by (rule mset_eq_setD)
  have "mset (accumulate xs) = mset (sort_key getHashCode (accumulate ys))"
    using set_eq_iff_mset_eq_distinct[OF distinct_accumulate distinct_accumulate, of xs ys]
    by (simp add: set_accumulate s)
  moreover have "inj_on getHashCode (set (accumulate xs))"
    using assms(2) by (simp add: set_accumulate)
  moreover have "sorted (map getHashCode (sort_key getHashCode (accumulate ys)))" by simp
  ultimately show ?thesis
    unfolding DatasetAssembler_def by (rule sort_key_inj_key_eq)
qed

theorem order_independent_without_collisions_witness:
  "mset [iphone, iphone_rounded] = mset [iphone_rounded, iphone]
   \<and> inj_on radius_hash (set [iphone, iphone_rounded])
   \<and> DatasetAssembler radius_hash [iphone, iphone_rounded]
       = DatasetAssembler radius_hash [iphone_rounded, iphone]"
proof -
  have m: "mset [iphone, iphone_rounded] = mset [iphone_rounded, iphone]" by simp
  have i: "inj_on radius_hash (set [iphone, iphone_rounded])"
    by (simp add: radius_hash_def iphone_def iphone_rounded_def)
  from m i order_independent_without_collisions[OF m i] show ?thesis by simp
qed

subsection \<open>C2: a device with one orientation only\<close>

text \<open>
  Claim C2 says that a device with a portrait attachment and no landscape attachment
  raises an error. The loop assigns the slot of each attachment it reads and nothing
  looks at the slots afterwards: the three tasks of such a device complete, and the
  record they push has no landscape.
\<close>

theorem missing_orientation_counterexample:
  "fst (device_task (host portrait_only_run) iphone14 initial) = None
   \<and> map landscape (dimensions (ctx (snd (device_task (host portrait_only_run) iphone14 initial))))
       = [None]"
  by (simp add: device_task_def host_def portrait_only_run_def good_run_def initial_def
      extracting_dimensions_def parsing_extracted_dimensions_def cleaning_up_extraction_cache_def
      Let_def portrait_attachment_def undefined_dimensions_def is_portrait_def push_unique_def
      isUniqueDimensions_def)

text \<open>
  Claim C2, amended: for every device whose attachments, one at least, are all read and
  are all portrait ones, the parsing task raises nothing and pushes, when it is unique, a
  record whose landscape slot is undefined and whose portrait slot is the payload of the
  last attachment; and the other way round when none of the attachments is a portrait
  one.
\<close>

theorem missing_orientation_left_undefined:
  assumes "xcresult R = Inr found" "xcparse R (first_match found) = None"
    "attachments R = Inr (map Inr as)" "as \<noteq> []" "\<forall>a \<in> set as. a \<noteq> JNull"
    "(\<forall>a \<in> set as. is_portrait a) \<or> (\<forall>a \<in> set as. \<not> is_portrait a)"
  shows "\<exists>d. parsing_extracted_dimensions R s =
        (None, s\<lparr>commands := commands s @ [(''xcparse'', xcparse_arguments (first_match found))],
                 ctx := (ctx s)\<lparr>dimensions := push_unique (dimensions (ctx s)) d\<rparr>\<rparr>)
     \<and> ((\<forall>a \<in> set as. is_portrait a) \<longrightarrow>
           landscape d = None \<and> portrait d = Some (JObj (rest_properties (last as))))
     \<and> ((\<forall>a \<in> set as. \<not> is_portrait a) \<longrightarrow>
           portrait d = None \<and> landscape d = Some (JObj (rest_properties (last as))))"
proof -
  from assms(6) show ?thesis
  proof
    assume p: "\<forall>a \<in> set as. is_portrait a"
    with assms(5) have "\<forall>a \<in> set as. a \<noteq> JNull \<and> is_portrait a" by simp
    from only_portrait_aux[OF this, of undefined_dimensions] obtain d
      where d: "attachment_loop undefined_dimensions (map Inr as) = Inr d"
        "landscape d = None" "portrait d = Some (JObj (rest_properties (last as)))"
      using assms(4) by (auto simp: undefined_dimensions_def)
    have "\<not> (\<forall>a \<in> set as. \<not> is_portrait a)" using p assms(4) by (cases as) auto
    with d parsing_extracted_dimensions_ok[OF assms(1,2,3) d(1), of s] show ?thesis by auto
  next
    assume p: "\<forall>a \<in> set as. \<not> is_portrait a"
    with assms(5) have "\<forall>a \<in> set as. a \<noteq> JNull \<and> \<not> is_portrait a" by simp
    from only_landscape_aux[OF this, of undefined_dimensions] obtain d
      where d: "attachment_loop undefined_dimensions (map Inr as) = Inr d"
        "portrait d = None" "landscape d = Some (JObj (rest_properties (last as)))"
      using assms(4) by (auto simp: undefined_dimensions_def)
    have "\<not> (\<forall>a \<in> set as. is_portrait a)" using p assms(4) by (cases as) auto
    with d parsing_extracted_dimensions_ok[OF assms(1,2,3) d(1), of s] show ?thesis by auto
  qed
qed

theorem missing_orientation_left_undefined_witness:
  "xcresult portrait_only_run = Inr [test_bundle]
   \<and> xcparse portrait_only_run (first_match [test_bundle]) = None
   \<and> attachments portrait_only_run = Inr (map Inr [portrait_attachment])
   \<and> portrait_attachment \<noteq> JNull
   \<and> is_portrait portrait_attachment
   \<and> (\<exists>d. parsing_extracted_dimensions portrait_only_run initial =
          (None, initial\<lparr>commands := commands initial
                     @ [(''xcparse'', xcparse_arguments (first_match [test_bundle]))],
                   ctx := (ctx initial)\<lparr>dimensions := push_unique (dimensions (ctx initial)) d\<rparr>\<rparr>)
        \<and> landscape d = None
        \<and> portrait d = Some (JObj (rest_properties portrait_attachment)))
   \<and> attachments landscape_only_run = Inr (map Inr [landscape_attachment])
   \<and> landscape_attachment \<noteq> JNull
   \<and> \<not> is_portrait landscape_attachment
   \<and> (\<exists>d. parsing_extracted_dimensions landscape_only_run initial =
          (None, initial\<lparr>commands := commands initial
                     @ [(''xcparse'', xcparse_arguments (first_match [test_bundle]))],
                   ctx := (ctx initial)\<lparr>dimensions := push_unique (dimensions (ctx initial)) d\<rparr>\<rparr>)
        \<and> portrait d = None
        \<and> landscape d = Some (JObj (rest_properties landscape_attachment)))"
proof -
  have 1: "xcresult portrait_only_run = Inr [test_bundle]"
    "xcresult landscape_only_run = Inr [test_bundle]"
    by (simp_all add: portrait_only_run_def landscape_only_run_def good_run_def)
  have 2: "xcparse portrait_only_run (first_match [test_bundle]) = None"
    "xcparse landscape_only_run (first_match [test_bundle]) = None"
    by (simp_all add: portrait_only_run_def landscape_only_run_def good_run_def)
  have 3: "attachments portrait_only_run = Inr (map Inr [portrait_attachment])"
    "attachments landscape_only_run = Inr (map Inr [landscape_attachment])"
    by (simp_all add: portrait_only_run_def landscape_only_run_def)
  have 4: "[portrait_attachment] \<noteq> []" "[landscape_attachment] \<noteq> []" by simp_all
  have 5: "\<forall>a \<in> set [portrait_attachment]. a \<noteq> JNull"
    "\<forall>a \<in> set [landscape_attachment]. a \<noteq> JNull"
    by (simp_all add: portrait_attachment_def landscape_attachment_def)
  have p: "is_portrait portrait_attachment"
    by (simp add: portrait_attachment_def is_portrait_def)
  have l: "\<not> is_portrait landscape_attachment"
    by (simp add: landscape_attachment_def is_portrait_def)
  from p have 6: "(\<forall>a \<in> set [portrait_attachment]. is_portrait a)
      \<or> (\<forall>a \<in> set [portrait_attachment]. \<not> is_portrait a)" by simp
  from l have 7: "(\<forall>a \<in> set [landscape_attachment]. is_portrait a)
      \<or> (\<forall>a \<in> set [landscape_attachment]. \<not> is_portrait a)" by simp
  from missing_orientation_left_undefined[OF 1(1) 2(1) 3(1) 4(1) 5(1) 6, of initial]
    missing_orientation_left_undefined[OF 1(2) 2(2) 3(2) 4(2) 5(2) 7, of initial]
    1 2 3 5 p l
  show ?thesis by simp
qed

subsection \<open>C3: the derived-data directory\<close>

text \<open>
  Claim C3 says that the directory is removed whether the steps of a device succeed or
  fail. The removal is the third task of the device's list, and the list stops at the
  first task that throws: on a device whose attachment cannot be read, the build has made
  the directory, the parsing task throws, and the directory is still there when the
  device's list has ended.
\<close>

theorem cleanup_skipped_counterexample:
  "fst (device_task (host unreadable_run) iphone14 initial)
     = Some (JSONError ''Unexpected end of JSON input'')
   \<and> derived_data (snd (device_task (host unreadable_run) iphone14 initial))"
  by (simp add: device_task_def host_def unreadable_run_def good_run_def initial_def
      extracting_dimensions_def parsing_extracted_dimensions_def Let_def)

text \<open>
  Claim C3, amended: when the build, the location of the bundle, the extraction, the
  parsing and the removal of a device all succeed, the device's list completes, and
  whenever it completes the directory is removed. When the build succeeds and a later
  task throws, the list stops there and the directory is still in place.
\<close>

theorem cleanup_when_steps_succeed:
  "(device_succeeds (simulator E d) \<longrightarrow> fst (device_task E d s) = None)
   \<and> (fst (device_task E d s) = None \<longrightarrow> \<not> derived_data (snd (device_task E d s)))
   \<and> (xcodebuild (simulator E d) = None \<and> fst (device_task E d s) \<noteq> None
        \<longrightarrow> derived_data (snd (device_task E d s)))"
  using device_task_succeeds[of E d s] device_task_completes[of E d s] device_task_stops[of E d s]
  by auto

theorem cleanup_when_steps_succeed_witness:
  "device_succeeds (simulator (host good_run) iphone14)
   \<and> fst (device_task (host good_run) iphone14 initial) = None
   \<and> \<not> derived_data (snd (device_task (host good_run) iphone14 initial))
   \<and> xcodebuild (simulator (host unreadable_run) iphone14) = None
   \<and> fst (device_task (host unreadable_run) iphone14 initial) \<noteq> None
   \<and> derived_data (snd (device_task (host unreadable_run) iphone14 initial))"
proof -
  have 1: "device_succeeds (simulator (host good_run) iphone14)"
    by (simp add: device_succeeds_def measured_def host_def good_run_def
        portrait_attachment_def landscape_attachment_def Let_def)
  have 2: "xcodebuild (simulator (host unreadable_run) iphone14) = None"
    by (simp add: host_def unreadable_run_def good_run_def)
  have 3: "fst (device_task (host unreadable_run) iphone14 initial) \<noteq> None"
    by (simp add: device_task_def host_def unreadable_run_def good_run_def initial_def
      extracting_dimensions_def parsing_extracted_dimensions_def Let_def)
  from cleanup_when_steps_succeed[of "host good_run" iphone14 initial]
    cleanup_when_steps_succeed[of "host unreadable_run" iphone14 initial] 1 2 3
  show ?thesis by blast
qed

subsection \<open>C4: one copy of each record, the first seen\<close>



subsection \<open>C5: an orientation that is neither portrait nor landscape\<close>

text \<open>
  Claim C5 says that an attachment whose orientation is not one of the two makes the
  parsing fail. The loop compares the orientation with \<^verbatim>\<open>"portrait"\<close> and takes the
  other branch for anything else: the attachment with the orientation \<^verbatim>\<open>"faceUp"\<close> is
  accepted and its payload becomes the landscape slot.
\<close>

theorem unknown_orientation_counterexample:
  "get_property faceup_attachment ''orientation'' = Some (JStr ''faceUp'')
   \<and> attachment_step undefined_dimensions (Inr faceup_attachment) =
       Inr \<lparr>device = Some (JStr ''iPhone''),
            landscape = Some (JObj [(''screen'', JObj [(''width'', JNum 390), (''height'', JNum 844)])]),
            portrait = None, radius = Some (JNum 0), scale = Some (JNum 3)\<rparr>"
  by (simp add: faceup_attachment_def undefined_dimensions_def is_portrait_def)

text \<open>
  Claim C5, amended: for every attachment that is read and is not \<^verbatim>\<open>null\<close>, and whose
  orientation is not one of \<^verbatim>\<open>"portrait"\<close> and \<^verbatim>\<open>"landscape"\<close> (or is absent), the round
  of the loop raises nothing: the attachment is accepted, its payload becomes the
  landscape slot and the portrait slot is left as it was.
\<close>

theorem unknown_orientation_routed_to_landscape:
  assumes "a \<noteq> JNull"
    "get_property a ''orientation'' \<notin> {Some (JStr ''portrait''), Some (JStr ''landscape'')}"
  shows "\<exists>d'. attachment_step d (Inr a) = Inr d'
     \<and> landscape d' = Some (JObj (rest_properties a)) \<and> portrait d' = portrait d"
  using assms by (simp add: attachment_step_parsed is_portrait_def)

theorem unknown_orientation_routed_to_landscape_witness:
  "faceup_attachment \<noteq> JNull
   \<and> get_property faceup_attachment ''orientation''
       \<notin> {Some (JStr ''portrait''), Some (JStr ''landscape'')}
   \<and> (\<exists>d'. attachment_step undefined_dimensions (Inr faceup_attachment) = Inr d'
        \<and> landscape d' = Some (JObj (rest_properties faceup_attachment))
        \<and> portrait d' = portrait undefined_dimensions)"
proof -
  have 1: "faceup_attachment \<noteq> JNull" by (simp add: faceup_attachment_def)
  have 2: "get_property faceup_attachment ''orientation''
      \<notin> {Some (JStr ''portrait''), Some (JStr ''landscape'')}"
    by (simp add: faceup_attachment_def)
  from unknown_orientation_routed_to_landscape[OF 1 2, of undefined_dimensions] 1 2
  show ?thesis by blast
qed

subsection \<open>C6: nothing is written before the last task\<close>



subsection \<open>C7: the handler of the run\<close>

text \<open>
  Claim C7: when the run ends with an error, the console afterwards is the console
  before when the error is a \<^verbatim>\<open>SilentError\<close>, and the console before followed by the
  error itself for every other error.
\<close>

theorem silent_errors_are_not_reported:
  assumes "fst (listr (tasks E getHashCode) s) = Some e"
  shows "console (run E getHashCode s)
     = (if (\<exists>m. e = SilentError m) then console s else console s @ [e])"
  using run_console[OF assms] by (simp add: isSilentError_iff)

theorem silent_errors_are_not_reported_witness:
  "fst (listr (tasks linux_host colliding_hash) initial)
     = Some (SilentError ''Xcode is only available on macOS.'')
   \<and> console (run linux_host colliding_hash initial) = []
   \<and> fst (listr (tasks (host unreadable_run) colliding_hash) initial)
       = Some (JSONError ''Unexpected end of JSON input'')
   \<and> console (run (host unreadable_run) colliding_hash initial)
       = [JSONError ''Unexpected end of JSON input'']"
proof -
  have 1: "fst (listr (tasks linux_host colliding_hash) initial)
      = Some (SilentError ''Xcode is only available on macOS.'')"
    by (simp add: tasks_def verifying_requirements_def linux_host_def)
  have 2: "fst (listr (tasks (host unreadable_run) colliding_hash) initial)
       = Some (JSONError ''Unexpected end of JSON input'')"
    by (simp add: tasks_def verifying_requirements_def gathering_devices_def gathering_dimensions_def
        device_task_def host_def unreadable_run_def good_run_def initial_def
        extracting_dimensions_def parsing_extracted_dimensions_def Let_def)
  from silent_errors_are_not_reported[OF 1] silent_errors_are_not_reported[OF 2] 1 2
  show ?thesis by (simp add: initial_def)
qed

subsection \<open>C8: the last attachment gives device, scale and radius\<close>

text \<open>
  Claim C8: for every non-empty sequence of attachments of a device that are all read
  and are not \<^verbatim>\<open>null\<close>, the loop ends with a record whose device, scale and radius are
  those of the last attachment, whatever the orientations are.
\<close>

theorem last_write_wins:
  assumes "as \<noteq> []" "\<forall>a \<in> set as. a \<noteq> JNull"
  shows "\<exists>d. attachment_loop undefined_dimensions (map Inr as) = Inr d
     \<and> device d = get_property (last as) ''device''
     \<and> scale d = get_property (last as) ''scale''
     \<and> radius d = get_property (last as) ''radius''"
  using assms by (rule loop_ends_with_last)

theorem last_write_wins_witness:
  "[portrait_attachment, rounded_attachment] \<noteq> []
   \<and> portrait_attachment \<noteq> JNull \<and> rounded_attachment \<noteq> JNull
   \<and> (\<exists>d. attachment_loop undefined_dimensions (map Inr [portrait_attachment, rounded_attachment])
          = Inr d
        \<and> device d = Some (JStr ''iPad'') \<and> scale d = Some (JNum 2) \<and> radius d = Some (JNum 6))"
proof -
  have 1: "[portrait_attachment, rounded_attachment] \<noteq> []" by simp
  have 2: "\<forall>a \<in> set [portrait_attachment, rounded_attachment]. a \<noteq> JNull"
    by (simp add: portrait_attachment_def rounded_attachment_def)
  from last_write_wins[OF 1 2] 1 2 show ?thesis
    by (simp add: rounded_attachment_def)
qed

subsection \<open>C9: records that differ in the radius\<close>



subsection \<open>C10: a device without attachments\<close>



end
